theory Spec2Isabelle
  imports Main
begin

section \<open>Text: Python \<open>str\<close> values as lists of code points\<close>

text \<open>
  A Python \<open>str\<close> is a sequence of Unicode code points, so a text is a list of
  natural numbers.  The parser \<open>parse_question_file\<close> of \<open>question-parser.py\<close>
  is modelled from the decoded text onwards: the two \<open>read_text\<close> attempts (UTF-8,
  then cp1252) only decide which text the loop sees.
\<close>

type_synonym pystr = "nat list"

definition str :: "string \<Rightarrow> pystr" where
  "str s = map of_char s"

text \<open>
  \<open>str.isspace\<close>, which is also the class \<open>\s\<close> of the \<open>re\<close> module on \<open>str\<close>
  patterns and the set removed by \<open>str.strip()\<close>.
\<close>

definition is_space :: "nat \<Rightarrow> bool" where
  "is_space c \<longleftrightarrow>
     (9 \<le> c \<and> c \<le> 13) \<or> (28 \<le> c \<and> c \<le> 32) \<or> c = 133 \<or> c = 160 \<or> c = 5760
     \<or> (8192 \<le> c \<and> c \<le> 8202) \<or> c = 8232 \<or> c = 8233 \<or> c = 8239 \<or> c = 8287
     \<or> c = 12288"

text \<open>
  The class \<open>\d\<close> on \<open>str\<close> patterns: the decimal digits of Unicode (category Nd,
  Unicode 14 as shipped with CPython 3.11).  They come in blocks of ten, listed by their
  first code point, and one run of fifty mathematical digits.
\<close>

definition digit_blocks :: "nat list" where
  "digit_blocks =
     [48, 1632, 1776, 1984, 2406, 2534, 2662, 2790, 2918, 3046, 3174, 3302, 3430, 3558,
      3664, 3792, 3872, 4160, 4240, 6112, 6160, 6470, 6608, 6784, 6800, 6992, 7088, 7232,
      7248, 42528, 43216, 43264, 43472, 43504, 43600, 44016, 65296, 66720, 68912, 69734,
      69872, 69942, 70096, 70384, 70736, 70864, 71248, 71360, 71472, 71904, 72016, 72784,
      73040, 73120, 92768, 92864, 93008, 123200, 123632, 125264, 130032]"

definition is_digit :: "nat \<Rightarrow> bool" where
  "is_digit c \<longleftrightarrow>
     list_ex (\<lambda>b. b \<le> c \<and> c < b + 10) digit_blocks \<or> (120782 \<le> c \<and> c \<le> 120831)"

text \<open>The class \<open>[a-zA-Z]\<close>, and \<open>str.lower()\<close> on a character of that class.\<close>

definition is_alpha :: "nat \<Rightarrow> bool" where
  "is_alpha c \<longleftrightarrow> (97 \<le> c \<and> c \<le> 122) \<or> (65 \<le> c \<and> c \<le> 90)"

definition lower :: "nat \<Rightarrow> nat" where
  "lower c = (if 65 \<le> c \<and> c \<le> 90 then c + 32 else c)"

text \<open>The line boundaries of \<open>str.splitlines()\<close>; \<open>\r\n\<close> counts as one boundary.\<close>

definition is_linebreak :: "nat \<Rightarrow> bool" where
  "is_linebreak c \<longleftrightarrow>
     (10 \<le> c \<and> c \<le> 13) \<or> (28 \<le> c \<and> c \<le> 30) \<or> c = 133 \<or> c = 8232 \<or> c = 8233"

fun splitlines :: "pystr \<Rightarrow> pystr list" where
  "splitlines [] = []"
| "splitlines (c # cs) =
     (if c = 13 then
        (case cs of
           [] \<Rightarrow> [[]]
         | d # ds \<Rightarrow> if d = 10 then [] # splitlines ds else [] # splitlines cs)
      else if is_linebreak c then [] # splitlines cs
      else (case splitlines cs of
              [] \<Rightarrow> [[c]]
            | l # ls \<Rightarrow> (c # l) # ls))"

definition strip :: "pystr \<Rightarrow> pystr" where
  "strip s = rev (dropWhile is_space (rev (dropWhile is_space s)))"

text \<open>\<open>ln.rstrip("\n")\<close>: trailing line feeds only.\<close>

definition rstrip_nl :: "pystr \<Rightarrow> pystr" where
  "rstrip_nl s = rev (dropWhile (\<lambda>c. c = 10) (rev s))"

section \<open>The two line patterns\<close>

text \<open>
  Both patterns end in \<open>\s*(.*)$\<close>.  The dot does not match a line feed and \<open>$\<close>
  matches at the end of the text or before a line feed that ends it, so after the
  longest run of white space the remainder must be free of line feeds, a last one
  apart; backtracking into the white space cannot repair a remainder that is not.
  The group is the remainder without that last line feed.
\<close>

definition rest_group :: "pystr \<Rightarrow> pystr option" where
  "rest_group r =
     (let t = dropWhile is_space r in
      if 10 \<notin> set t then Some t
      else if last t = 10 \<and> 10 \<notin> set (butlast t) then Some (butlast t)
      else None)"

text \<open>
  \<open>QUESTION_RE = ^(\d+)\.\s*(.*)$\<close>.  The digits are the longest run of digits: a
  shorter run is followed by a digit, not by the dot.  The result is the pair of
  groups 1 and 2.
\<close>

definition QUESTION_RE :: "pystr \<Rightarrow> (pystr \<times> pystr) option" where
  "QUESTION_RE s =
     (let ds = takeWhile is_digit s in
      if ds = [] then None
      else (case dropWhile is_digit s of
              [] \<Rightarrow> None
            | c # r \<Rightarrow>
                if c = 46 then
                  (case rest_group r of None \<Rightarrow> None | Some g \<Rightarrow> Some (ds, g))
                else None))"

text \<open>
  \<open>CHOICE_RE = ^(\*?)([a-zA-Z])\.\s*(.*)$\<close>.  Group 1 is the star when the text
  starts with one (without it the letter would have to match the star).  The result
  is the triple of groups 1 (as a flag), 2 and 3.
\<close>

definition CHOICE_RE :: "pystr \<Rightarrow> (bool \<times> nat \<times> pystr) option" where
  "CHOICE_RE s =
     (let star = (s \<noteq> [] \<and> hd s = 42);
          s1 = (if star then tl s else s) in
      case s1 of
        l # d # r \<Rightarrow>
          if is_alpha l \<and> d = 46 then
            (case rest_group r of None \<Rightarrow> None | Some g \<Rightarrow> Some (star, l, g))
          else None
      | _ \<Rightarrow> None)"

section \<open>Question records and the parsing loop\<close>

record choice =
  letter :: pystr
  text_c :: pystr

record question =
  id_q :: pystr
  source_file :: pystr
  question :: pystr
  choices :: "choice list"
  correct_letter :: "pystr option"
  correct_index :: "nat option"

text \<open>What the parser reads of its \<open>Path\<close> argument: \<open>path.stem\<close> and \<open>path.name\<close>.\<close>

record path =
  stem :: pystr
  name :: pystr

datatype line_type = Question | Choice

text \<open>The variables of the loop: \<open>questions\<close>, \<open>current\<close> and \<open>last_type\<close>.\<close>

record state =
  questions :: "question list"
  current :: "question option"
  last_type :: "line_type option"

definition init :: state where
  "init = \<lparr>questions = [], current = None, last_type = None\<rparr>"

text \<open>One iteration of \<open>for line in lines\<close>.\<close>

definition step :: "path \<Rightarrow> state \<Rightarrow> pystr \<Rightarrow> state" where
  "step p s line =
     (let stripped = strip line in
      if stripped = [] then s
      else
        (case QUESTION_RE stripped of
           Some (q_number, g2) \<Rightarrow>
             \<lparr>questions = (case current s of None \<Rightarrow> questions s | Some c \<Rightarrow> questions s @ [c]),
              current = Some \<lparr>id_q = stem p @ [95] @ q_number, source_file = name p,
                               question = strip g2, choices = [],
                               correct_letter = None, correct_index = None\<rparr>,
              last_type = Some Question\<rparr>
         | None \<Rightarrow>
             (case (CHOICE_RE stripped, current s) of
                (Some (star, l, g3), Some c) \<Rightarrow>
                  (let letter = [lower l];
                       text_part = strip g3;
                       choice_index = length (choices c);
                       c1 = c\<lparr>choices := choices c @ [\<lparr>letter = letter, text_c = text_part\<rparr>]\<rparr>;
                       c2 = (if star
                             then c1\<lparr>correct_letter := Some letter,
                                     correct_index := Some choice_index\<rparr>
                             else c1)
                   in s\<lparr>current := Some c2, last_type := Some Choice\<rparr>)
              | _ \<Rightarrow>
                  (case current s of
                     None \<Rightarrow> s
                   | Some c \<Rightarrow>
                       if last_type s = Some Question then
                         s\<lparr>current := Some (c\<lparr>question := question c @ [32] @ stripped\<rparr>)\<rparr>
                       else if last_type s = Some Choice \<and> choices c \<noteq> [] then
                         s\<lparr>current := Some (c\<lparr>choices := butlast (choices c) @
                               [(last (choices c))\<lparr>text_c := text_c (last (choices c)) @ [32] @ stripped\<rparr>]\<rparr>)\<rparr>
                       else s))))"

fun run :: "path \<Rightarrow> state \<Rightarrow> pystr list \<Rightarrow> state" where
  "run p s [] = s"
| "run p s (line # lines) = run p (step p s line) lines"

text \<open>\<open>if current is not None: questions.append(current)\<close> after the loop.\<close>

definition finalize :: "state \<Rightarrow> question list" where
  "finalize s = (case current s of None \<Rightarrow> questions s | Some c \<Rightarrow> questions s @ [c])"

text \<open>The line printed for a record without a marked answer.\<close>

definition warning :: "path \<Rightarrow> question \<Rightarrow> pystr" where
  "warning p q =
     str ''WARNING: No correct answer marked in '' @ name p @
     str '' for question id '' @ id_q q"

text \<open>
  The loop over the lines with the final append (\<open>parse_lines\<close>), and
  \<open>parse_question_file\<close> on the decoded text of the file: the records returned and the
  lines printed.  No statement of the function can raise once the text is decoded: every
  key read is set when the record is created, and the only indexing, \<open>[-1]\<close>, is
  guarded by the test that the list is not empty.
\<close>

definition parse_lines :: "path \<Rightarrow> pystr list \<Rightarrow> question list" where
  "parse_lines p lines = finalize (run p init lines)"

definition parse_question_file :: "path \<Rightarrow> pystr \<Rightarrow> question list \<times> pystr list" where
  "parse_question_file p t =
     (let lines = map rstrip_nl (splitlines t);
          qs = parse_lines p lines
      in (qs, map (warning p) (filter (\<lambda>q. correct_index q = None) qs)))"

section \<open>Specification vocabulary\<close>

text \<open>
  A text that can stand as a field of a line: it has no white space at either end and
  no line boundary inside.
\<close>

definition plain :: "pystr \<Rightarrow> bool" where
  "plain t \<longleftrightarrow> strip t = t \<and> list_all (\<lambda>c. \<not> is_linebreak c) t"


text \<open>The four kinds of line, as the tests of the loop body decide them.\<close>

definition is_blank :: "pystr \<Rightarrow> bool" where
  "is_blank l \<longleftrightarrow> strip l = []"

definition is_header :: "pystr \<Rightarrow> bool" where
  "is_header l \<longleftrightarrow> strip l \<noteq> [] \<and> QUESTION_RE (strip l) \<noteq> None"

definition is_choice :: "pystr \<Rightarrow> bool" where
  "is_choice l \<longleftrightarrow> strip l \<noteq> [] \<and> QUESTION_RE (strip l) = None \<and> CHOICE_RE (strip l) \<noteq> None"

definition is_continuation :: "pystr \<Rightarrow> bool" where
  "is_continuation l \<longleftrightarrow>
     strip l \<noteq> [] \<and> QUESTION_RE (strip l) = None \<and> CHOICE_RE (strip l) = None"

text \<open>The number of a header line (group 1 of \<open>QUESTION_RE\<close>).\<close>

definition header_number :: "pystr \<Rightarrow> pystr" where
  "header_number l = (case QUESTION_RE (strip l) of None \<Rightarrow> [] | Some (n, g) \<Rightarrow> n)"

text \<open>The text of a header line (group 2 of \<open>QUESTION_RE\<close>, stripped).\<close>

definition header_text :: "pystr \<Rightarrow> pystr" where
  "header_text l = (case QUESTION_RE (strip l) of None \<Rightarrow> [] | Some (n, g) \<Rightarrow> strip g)"

text \<open>The record that a header line opens.\<close>

definition opened :: "path \<Rightarrow> pystr \<Rightarrow> question" where
  "opened p l =
     \<lparr>id_q = stem p @ [95] @ header_number l, source_file = name p,
      question = header_text l, choices = [],
      correct_letter = None, correct_index = None\<rparr>"

text \<open>
  The marker and the letter of a choice line (groups 1 and 2 of \<open>CHOICE_RE\<close>, the
  letter in lower case).
\<close>

definition choice_marked :: "pystr \<Rightarrow> bool" where
  "choice_marked l = (case CHOICE_RE (strip l) of None \<Rightarrow> False | Some (star, a, g) \<Rightarrow> star)"

definition choice_letter :: "pystr \<Rightarrow> pystr" where
  "choice_letter l = (case CHOICE_RE (strip l) of None \<Rightarrow> [] | Some (star, a, g) \<Rightarrow> [lower a])"

text \<open>The position of the last marked line among the choice lines of a block.\<close>

fun last_marked :: "pystr list \<Rightarrow> nat option" where
  "last_marked [] = None"
| "last_marked (l # ls) =
     (case last_marked ls of
        Some i \<Rightarrow> Some (Suc i)
      | None \<Rightarrow> if choice_marked l then Some 0 else None)"

text \<open>
  What a block of lines without a header has made of the record \<open>c\<close> that was open
  before it: the letters of its choice lines are appended in order, and the marking is
  that of the last marked choice line of the block, when there is one.
\<close>

definition block_result :: "question \<Rightarrow> pystr list \<Rightarrow> question \<Rightarrow> bool" where
  "block_result c ls c' \<longleftrightarrow>
     map letter (choices c') = map letter (choices c) @ map choice_letter (filter is_choice ls) \<and>
     correct_index c' =
       (case last_marked (filter is_choice ls) of
          None \<Rightarrow> correct_index c | Some i \<Rightarrow> Some (length (choices c) + i)) \<and>
     correct_letter c' =
       (case last_marked (filter is_choice ls) of
          None \<Rightarrow> correct_letter c | Some i \<Rightarrow> Some (choice_letter (filter is_choice ls ! i)))"

text \<open>
  Consistency of the marking of a record: a present \<open>correct_index\<close> is a position of
  \<open>choices\<close>, and the choice there carries \<open>correct_letter\<close>.
\<close>

definition consistent :: "question \<Rightarrow> bool" where
  "consistent q \<longleftrightarrow>
     (case correct_index q of
        None \<Rightarrow> True
      | Some i \<Rightarrow> i < length (choices q) \<and> correct_letter q = Some (letter (choices q ! i)))"

definition state_consistent :: "state \<Rightarrow> bool" where
  "state_consistent s \<longleftrightarrow>
     list_all consistent (questions s) \<and>
     (case current s of None \<Rightarrow> True | Some c \<Rightarrow> consistent c)"

text \<open>The invariant of \<open>last_type\<close>: after a choice line the record has a choice.\<close>

definition choice_inv :: "state \<Rightarrow> bool" where
  "choice_inv s \<longleftrightarrow>
     (last_type s = Some Choice \<longrightarrow>
        (case current s of None \<Rightarrow> False | Some c \<Rightarrow> choices c \<noteq> []))"

text \<open>
  The one case in which the second half of the test
  \<open>last_type == "choice" and current["choices"]\<close> decides: a continuation line
  reaches it with \<open>last_type == "choice"\<close> and an empty list, and is dropped.
\<close>

definition drop_case :: "state \<Rightarrow> pystr \<Rightarrow> bool" where
  "drop_case s line \<longleftrightarrow>
     (let stripped = strip line in
      stripped \<noteq> [] \<and> QUESTION_RE stripped = None \<and>
      \<not> (CHOICE_RE stripped \<noteq> None \<and> current s \<noteq> None) \<and>
      (case current s of
         None \<Rightarrow> False
       | Some c \<Rightarrow> last_type s \<noteq> Some Question \<and> last_type s = Some Choice \<and> choices c = []))"


text \<open>A letter as the parser stores it: one character, \<open>a\<close> to \<open>z\<close>.\<close>

definition lower_letter :: "pystr \<Rightarrow> bool" where
  "lower_letter s \<longleftrightarrow> (case s of [a] \<Rightarrow> 97 \<le> a \<and> a \<le> 122 | _ \<Rightarrow> False)"

definition letters_ok :: "question \<Rightarrow> bool" where
  "letters_ok q \<longleftrightarrow> list_all lower_letter (map letter (choices q))"

definition state_letters_ok :: "state \<Rightarrow> bool" where
  "state_letters_ok s \<longleftrightarrow>
     list_all letters_ok (questions s) \<and>
     (case current s of None \<Rightarrow> True | Some c \<Rightarrow> letters_ok c)"

section \<open>Facts about lines and stripping\<close>

lemma linebreak_lf: "is_linebreak 10" and linebreak_cr: "is_linebreak 13"
  by (simp_all add: is_linebreak_def)

lemma splitlines_line:
  "\<forall>c\<in>set l. \<not> is_linebreak c \<Longrightarrow> splitlines (l @ 10 # r) = l # splitlines r"
proof (induction l)
  case Nil
  then show ?case by (simp add: linebreak_lf)
next
  case (Cons c l)
  then have "\<not> is_linebreak c" by simp
  then have "c \<noteq> 13" using linebreak_cr by blast
  with Cons show ?case by simp
qed

lemma splitlines_last_line:
  "\<forall>c\<in>set l. \<not> is_linebreak c \<Longrightarrow> l \<noteq> [] \<Longrightarrow> splitlines l = [l]"
proof (induction l)
  case Nil
  then show ?case by simp
next
  case (Cons c l)
  then have "\<not> is_linebreak c" by simp
  then have "c \<noteq> 13" using linebreak_cr by blast
  with Cons show ?case by (cases l) simp_all
qed

lemma rstrip_nl_id: "\<forall>c\<in>set l. \<not> is_linebreak c \<Longrightarrow> rstrip_nl l = l"
proof -
  assume a: "\<forall>c\<in>set l. \<not> is_linebreak c"
  have "dropWhile (\<lambda>c. c = 10) (rev l) = rev l"
  proof (cases "rev l")
    case Nil then show ?thesis by simp
  next
    case (Cons x xs)
    then have "x \<in> set (rev l)" by simp
    then have "x \<in> set l" by simp
    with a have "\<not> is_linebreak x" by blast
    then have "x \<noteq> 10" using linebreak_lf by blast
    with Cons show ?thesis by simp
  qed
  then show ?thesis by (simp add: rstrip_nl_def)
qed

lemma strip_Nil: "strip [] = []"
  by (simp add: strip_def)

lemma strip_fixI:
  assumes "t \<noteq> []" "\<not> is_space (hd t)" "\<not> is_space (last t)"
  shows "strip t = t"
proof -
  from assms have 1: "dropWhile is_space t = t" by (cases t) auto
  from assms have "rev t \<noteq> []" "\<not> is_space (hd (rev t))" by (simp_all add: hd_rev)
  then have "dropWhile is_space (rev t) = rev t" by (cases "rev t") auto
  with 1 show ?thesis by (simp add: strip_def)
qed

lemma strip_ends:
  assumes "strip t \<noteq> []"
  shows "\<not> is_space (hd (strip t))" "\<not> is_space (last (strip t))"
proof -
  let ?u = "dropWhile is_space t"
  let ?v = "dropWhile is_space (rev ?u)"
  from assms have v: "?v \<noteq> []" by (simp add: strip_def)
  then have "\<not> is_space (hd ?v)" by (rule hd_dropWhile)
  with v show "\<not> is_space (last (strip t))" by (simp add: strip_def last_rev)
  have u: "?u \<noteq> []"
  proof
    assume "?u = []"
    then have "?v = []" by (simp only: rev.simps dropWhile.simps)
    with v show False by blast
  qed
  then have hu: "\<not> is_space (hd ?u)" by (rule hd_dropWhile)
  have "hd (strip t) = last ?v" using v by (simp add: strip_def hd_rev)
  also have "\<dots> = last (rev ?u)"
    using v by (metis dropWhile_eq_Nil_conv last_appendR takeWhile_dropWhile_id)
  also have "\<dots> = hd ?u" using u by (simp add: last_rev)
  finally show "\<not> is_space (hd (strip t))" using hu by simp
qed

lemma strip_strip: "strip (strip t) = strip t"
  by (cases "strip t = []") (simp_all add: strip_Nil strip_fixI strip_ends)

lemma plain_no_linebreak: "plain t \<Longrightarrow> \<forall>c\<in>set t. \<not> is_linebreak c"
  by (simp add: plain_def list_all_iff)

lemma plain_no_lf: "plain t \<Longrightarrow> 10 \<notin> set t"
  using plain_no_linebreak linebreak_lf by blast

lemma plain_dropWhile: "plain t \<Longrightarrow> dropWhile is_space t = t"
proof (cases t)
  case Nil then show ?thesis by simp
next
  case (Cons c cs)
  assume "plain t"
  then have "strip t = t" by (simp add: plain_def)
  with Cons strip_ends(1)[of t] have "\<not> is_space c" by simp
  with Cons show ?thesis by simp
qed

lemma rest_group_plain: "plain t \<Longrightarrow> rest_group (32 # t) = Some t"
  by (simp add: rest_group_def is_space_def plain_dropWhile plain_no_lf)

lemma strip_prefix_plain:
  assumes "plain t" "\<not> is_space c" "\<not> is_space (last (c # u))"
  shows "strip (c # u @ 32 # t) = (if t = [] then c # u else c # u @ 32 # t)"
proof (cases "t = []")
  case True
  have "strip (c # u @ [32]) = c # u"
    using assms(2,3) by (cases "rev u") (auto simp add: strip_def is_space_def)
  with True show ?thesis by simp
next
  case False
  from assms(1) have "strip t = t" by (simp add: plain_def)
  with False strip_ends(2)[of t] have "\<not> is_space (last t)" by simp
  with False assms(2) have "strip (c # u @ 32 # t) = c # u @ 32 # t"
    by (intro strip_fixI) simp_all
  with False show ?thesis by simp
qed

lemma not_digit_dot: "\<not> is_digit 46" "\<not> is_digit 42"
  by (simp_all add: is_digit_def digit_blocks_def)

lemma blocks_range:
  "\<forall>b\<in>set digit_blocks. b = 48 \<or> (1632 \<le> b \<and> b \<le> 7248) \<or> 42528 \<le> b"
  by (simp add: digit_blocks_def)

lemma digit_bounds:
  assumes "is_digit c"
  shows "(48 \<le> c \<and> c \<le> 57) \<or> (1632 \<le> c \<and> c \<le> 7257) \<or> 42528 \<le> c"
proof (cases "120782 \<le> c \<and> c \<le> 120831")
  case True
  then show ?thesis by simp
next
  case False
  with assms obtain b where b: "b \<in> set digit_blocks" "b \<le> c" "c < b + 10"
    by (auto simp: is_digit_def list_ex_iff)
  from b(1) blocks_range have "b = 48 \<or> (1632 \<le> b \<and> b \<le> 7248) \<or> 42528 \<le> b" by blast
  with b(2,3) show ?thesis by arith
qed

lemma alpha_not_digit: "is_alpha c \<Longrightarrow> \<not> is_digit c"
  using digit_bounds[of c] by (auto simp: is_alpha_def)


lemma step_blank: "strip l = [] \<Longrightarrow> step p s l = s"
  by (simp add: step_def)

lemma step_header:
  "strip l \<noteq> [] \<Longrightarrow> QUESTION_RE (strip l) = Some (n, g) \<Longrightarrow>
   step p s l =
     \<lparr>questions = (case current s of None \<Rightarrow> questions s | Some c \<Rightarrow> questions s @ [c]),
      current = Some \<lparr>id_q = stem p @ [95] @ n, source_file = name p,
                       question = strip g, choices = [],
                       correct_letter = None, correct_index = None\<rparr>,
      last_type = Some Question\<rparr>"
  by (simp add: step_def)

lemma step_choice:
  "strip l \<noteq> [] \<Longrightarrow> QUESTION_RE (strip l) = None \<Longrightarrow>
   CHOICE_RE (strip l) = Some (star, a, g) \<Longrightarrow> current s = Some c \<Longrightarrow>
   step p s l =
     s\<lparr>current := Some
          (if star
           then c\<lparr>choices := choices c @ [\<lparr>letter = [lower a], text_c = strip g\<rparr>],
                  correct_letter := Some [lower a],
                  correct_index := Some (length (choices c))\<rparr>
           else c\<lparr>choices := choices c @ [\<lparr>letter = [lower a], text_c = strip g\<rparr>]\<rparr>),
        last_type := Some Choice\<rparr>"
  by (simp add: step_def Let_def)

lemma QUESTION_RE_digits:
  assumes "ds \<noteq> []" "list_all is_digit ds" "rest_group r = Some g"
  shows "QUESTION_RE (ds @ 46 # r) = Some (ds, g)"
proof -
  from assms(2) have "takeWhile is_digit (ds @ 46 # r) = ds"
    by (simp add: list_all_iff takeWhile_append2 not_digit_dot)
  moreover from assms(2) have "dropWhile is_digit (ds @ 46 # r) = 46 # r"
    by (simp add: list_all_iff dropWhile_append2 not_digit_dot)
  ultimately show ?thesis using assms(1,3) by (simp add: QUESTION_RE_def)
qed

lemma QUESTION_RE_no_digit: "s \<noteq> [] \<Longrightarrow> \<not> is_digit (hd s) \<Longrightarrow> QUESTION_RE s = None"
  by (cases s) (simp_all add: QUESTION_RE_def)


lemma digit_not_space: "is_digit c \<Longrightarrow> \<not> is_space c"
proof
  assume d: "is_digit c" and s: "is_space c"
  from digit_bounds[OF d] s have "c = 5760" by (auto simp: is_space_def)
  with d show False by (simp add: is_digit_def digit_blocks_def)
qed

lemma alpha_not_space: "is_alpha c \<Longrightarrow> \<not> is_space c"
  by (auto simp: is_alpha_def is_space_def)

lemma rest_group_Nil: "rest_group [] = Some []"
  by (simp add: rest_group_def)

lemma plain_strip: "plain t \<Longrightarrow> strip t = t"
  by (simp add: plain_def)

lemma header_line:
  assumes "plain Q" "ds \<noteq> []" "list_all is_digit ds"
  shows "step p s (ds @ 46 # 32 # Q) =
     \<lparr>questions = (case current s of None \<Rightarrow> questions s | Some c \<Rightarrow> questions s @ [c]),
      current = Some \<lparr>id_q = stem p @ [95] @ ds, source_file = name p,
                       question = Q, choices = [],
                       correct_letter = None, correct_index = None\<rparr>,
      last_type = Some Question\<rparr>"
proof -
  from assms(2) obtain d ds' where ds: "ds = d # ds'" by (cases ds) auto
  with assms(3) have d: "\<not> is_space d" by (simp add: digit_not_space)
  have l: "\<not> is_space (last (d # ds' @ [46]))" by (simp add: is_space_def)
  have st: "strip (ds @ 46 # 32 # Q) = (if Q = [] then ds @ [46] else ds @ 46 # 32 # Q)"
    using strip_prefix_plain[OF assms(1) d l] ds by simp
  have q: "QUESTION_RE (strip (ds @ 46 # 32 # Q)) = Some (ds, Q)"
    using assms by (simp add: st QUESTION_RE_digits rest_group_Nil rest_group_plain)
  have ne: "strip (ds @ 46 # 32 # Q) \<noteq> []" using assms(2) by (simp add: st)
  show ?thesis using step_header[OF ne q, of p s] assms(1) by (simp add: plain_strip)
qed

lemma CHOICE_RE_letter:
  "is_alpha a \<Longrightarrow> rest_group r = Some g \<Longrightarrow> CHOICE_RE (a # 46 # r) = Some (False, a, g)"
  by (auto simp add: CHOICE_RE_def is_alpha_def)

lemma CHOICE_RE_star:
  "is_alpha a \<Longrightarrow> rest_group r = Some g \<Longrightarrow> CHOICE_RE (42 # a # 46 # r) = Some (True, a, g)"
  by (simp add: CHOICE_RE_def)

lemma choice_line:
  assumes "plain x" "is_alpha a" "current s = Some c"
  shows "step p s (a # 46 # 32 # x) =
     s\<lparr>current := Some (c\<lparr>choices := choices c @ [\<lparr>letter = [lower a], text_c = x\<rparr>]\<rparr>),
       last_type := Some Choice\<rparr>"
proof -
  have a: "\<not> is_space a" using assms(2) by (rule alpha_not_space)
  have l: "\<not> is_space (last (a # [46]))" by (simp add: is_space_def)
  have st: "strip (a # 46 # 32 # x) = (if x = [] then [a, 46] else a # 46 # 32 # x)"
    using strip_prefix_plain[OF assms(1) a l] by simp
  have q: "QUESTION_RE (strip (a # 46 # 32 # x)) = None"
    using assms(2) by (simp add: st QUESTION_RE_no_digit alpha_not_digit)
  have ch: "CHOICE_RE (strip (a # 46 # 32 # x)) = Some (False, a, x)"
    using assms(1,2) by (simp add: st CHOICE_RE_letter rest_group_Nil rest_group_plain)
  have ne: "strip (a # 46 # 32 # x) \<noteq> []" by (simp add: st)
  show ?thesis using step_choice[OF ne q ch assms(3), of p] assms(1) by (simp add: plain_strip)
qed

lemma marked_choice_line:
  assumes "plain x" "is_alpha a" "current s = Some c"
  shows "step p s (42 # a # 46 # 32 # x) =
     s\<lparr>current := Some (c\<lparr>choices := choices c @ [\<lparr>letter = [lower a], text_c = x\<rparr>],
                           correct_letter := Some [lower a],
                           correct_index := Some (length (choices c))\<rparr>),
       last_type := Some Choice\<rparr>"
proof -
  have a: "\<not> is_space 42" by (simp add: is_space_def)
  have l: "\<not> is_space (last (42 # [a, 46]))" by (simp add: is_space_def)
  have st: "strip (42 # a # 46 # 32 # x) = (if x = [] then [42, a, 46] else 42 # a # 46 # 32 # x)"
    using strip_prefix_plain[OF assms(1) a l] by simp
  have q: "QUESTION_RE (strip (42 # a # 46 # 32 # x)) = None"
    by (simp add: st QUESTION_RE_no_digit not_digit_dot)
  have ch: "CHOICE_RE (strip (42 # a # 46 # 32 # x)) = Some (True, a, x)"
    using assms(1,2) by (simp add: st CHOICE_RE_star rest_group_Nil rest_group_plain)
  have ne: "strip (42 # a # 46 # 32 # x) \<noteq> []" by (simp add: st)
  show ?thesis using step_choice[OF ne q ch assms(3), of p] assms(1) by (simp add: plain_strip)
qed


section \<open>Evaluation on concrete files\<close>

lemmas eval_defs = parse_question_file_def parse_lines_def finalize_def init_def step_def str_def
  rstrip_nl_def strip_def is_space_def is_linebreak_def QUESTION_RE_def CHOICE_RE_def
  rest_group_def is_digit_def digit_blocks_def is_alpha_def lower_def Let_def warning_def

lemmas kind_defs = is_blank_def is_header_def is_choice_def is_continuation_def
  header_number_def header_text_def choice_marked_def choice_letter_def opened_def

section \<open>Invariants of the loop\<close>

lemma run_append: "run p s (xs @ ys) = run p (run p s xs) ys"
  by (induction xs arbitrary: s) simp_all

lemma run_snoc: "run p s (xs @ [l]) = step p (run p s xs) l"
  by (simp add: run_append)

lemma letters_set_last:
  "cs \<noteq> [] \<Longrightarrow> map letter (butlast cs @ [(last cs)\<lparr>text_c := t\<rparr>]) = map letter cs"
  by (induction cs) simp_all

lemma consistent_letters:
  "consistent q \<longleftrightarrow>
     (case correct_index q of None \<Rightarrow> True
      | Some i \<Rightarrow> i < length (choices q) \<and> correct_letter q = Some (map letter (choices q) ! i))"
  by (auto simp: consistent_def split: option.splits)

lemma consistent_question_update: "consistent (c\<lparr>question := t\<rparr>) = consistent c"
  by (simp add: consistent_def split: option.splits)

lemma consistent_set_last:
  assumes "choices c \<noteq> []"
  shows "consistent (c\<lparr>choices := butlast (choices c) @ [(last (choices c))\<lparr>text_c := t\<rparr>]\<rparr>)
         = consistent c"
  using letters_set_last[OF assms, of t] assms
  by (auto simp add: consistent_letters split: option.splits)

lemma consistent_append:
  "consistent c \<Longrightarrow> consistent (c\<lparr>choices := choices c @ [x]\<rparr>)"
  by (auto simp: consistent_def nth_append split: option.splits)

lemma consistent_mark:
  "consistent (c\<lparr>choices := choices c @ [\<lparr>letter = a, text_c = t\<rparr>],
                 correct_letter := Some a, correct_index := Some (length (choices c))\<rparr>)"
  by (simp add: consistent_def)

lemma step_consistent: "state_consistent s \<Longrightarrow> state_consistent (step p s l)"
  by (auto simp: step_def state_consistent_def Let_def consistent_question_update
      consistent_set_last consistent_append consistent_mark consistent_def[of "\<lparr>id_q = _, source_file = _, question = _, choices = [], correct_letter = None, correct_index = None\<rparr>"]
      split: option.splits prod.splits)

lemma run_consistent: "state_consistent s \<Longrightarrow> state_consistent (run p s ls)"
  by (induction ls arbitrary: s) (simp_all add: step_consistent)

lemma init_consistent: "state_consistent init"
  by (simp add: state_consistent_def init_def)

lemma finalize_consistent: "state_consistent s \<Longrightarrow> list_all consistent (finalize s)"
  by (auto simp: state_consistent_def finalize_def split: option.splits)

lemma parse_lines_consistent: "list_all consistent (parse_lines p ls)"
  unfolding parse_lines_def by (intro finalize_consistent run_consistent init_consistent)

lemma fst_parse_question_file:
  "fst (parse_question_file p t) = parse_lines p (map rstrip_nl (splitlines t))"
  by (simp add: parse_question_file_def Let_def)

lemma step_choice_inv: "choice_inv s \<Longrightarrow> choice_inv (step p s l)"
  by (auto simp: step_def choice_inv_def Let_def split: option.splits prod.splits)

lemma run_choice_inv: "choice_inv s \<Longrightarrow> choice_inv (run p s ls)"
  by (induction ls arbitrary: s) (simp_all add: step_choice_inv)

lemma init_choice_inv: "choice_inv init"
  by (simp add: choice_inv_def init_def)

lemma choice_inv_no_drop: "choice_inv s \<Longrightarrow> \<not> drop_case s l"
  by (auto simp: choice_inv_def drop_case_def Let_def split: option.splits)


lemma step_continuation_structure:
  assumes "is_continuation l" "current s = Some c"
  shows "\<exists>c'. current (step p s l) = Some c' \<and> map letter (choices c') = map letter (choices c)
           \<and> correct_index c' = correct_index c \<and> correct_letter c' = correct_letter c"
  using assms letters_set_last[of "choices c"]
  by (auto simp: step_def is_continuation_def Let_def)

lemma step_continuation_choice:
  assumes "is_continuation l" "last_type s = Some Choice" "choice_inv s"
  shows "\<exists>c. current s = Some c \<and> choices c \<noteq> [] \<and>
           step p s l = s\<lparr>current := Some (c\<lparr>choices := butlast (choices c) @
             [(last (choices c))\<lparr>text_c := text_c (last (choices c)) @ [32] @ strip l\<rparr>]\<rparr>)\<rparr>"
  using assms
  by (auto simp: step_def is_continuation_def choice_inv_def Let_def split: option.splits)


section \<open>Headers, blocks and the list of records\<close>

lemma step_header_opened:
  "is_header l \<Longrightarrow>
   step p s l = \<lparr>questions = finalize s, current = Some (opened p l), last_type = Some Question\<rparr>"
  by (auto simp: is_header_def step_def finalize_def opened_def header_number_def header_text_def)

lemma step_orphan: "current s = None \<Longrightarrow> \<not> is_header l \<Longrightarrow> step p s l = s"
  by (auto simp: is_header_def step_def Let_def split: option.splits prod.splits)

lemma step_not_header:
  assumes "\<not> is_header l"
  shows "questions (step p s l) = questions s"
    and "current s = None \<Longrightarrow> current (step p s l) = None"
    and "current s = Some c \<Longrightarrow>
           \<exists>c'. current (step p s l) = Some c' \<and> id_q c' = id_q c \<and> source_file c' = source_file c"
  using assms
  by (auto simp: is_header_def step_def Let_def split: option.splits prod.splits)

lemma ids_step_not_header:
  "\<not> is_header l \<Longrightarrow> map id_q (finalize (step p s l)) = map id_q (finalize s)"
  using step_not_header[where l=l and p=p and s=s]
  by (cases "current s") (auto simp: finalize_def)

lemma ids_run:
  "map id_q (finalize (run p s ls)) =
     map id_q (finalize s) @ map (\<lambda>l. stem p @ [95] @ header_number l) (filter is_header ls)"
proof (induction ls arbitrary: s)
  case Nil
  then show ?case by simp
next
  case (Cons l ls)
  show ?case
  proof (cases "is_header l")
    case True
    then have "finalize (step p s l) = finalize s @ [opened p l]"
      by (simp add: step_header_opened finalize_def)
    with True Cons show ?thesis by (simp add: opened_def)
  next
    case False
    with Cons show ?thesis by (simp add: ids_step_not_header)
  qed
qed

lemma ids_parse_lines:
  "map id_q (parse_lines p ls) = map (\<lambda>l. stem p @ [95] @ header_number l) (filter is_header ls)"
  using ids_run[of p init ls] by (simp add: parse_lines_def finalize_def init_def)

lemma distinct_map_prefix: "distinct (map (\<lambda>x. pre @ f x) xs) = distinct (map f xs)"
proof -
  have "map (\<lambda>x. pre @ f x) xs = map ((@) pre) (map f xs)" by simp
  moreover have "inj_on ((@) pre) (set (map f xs))" by (simp add: inj_on_def)
  ultimately show ?thesis by (simp only: distinct_map) simp
qed

lemma run_orphans:
  "list_all (\<lambda>l. \<not> is_header l) pre \<Longrightarrow> current s = None \<Longrightarrow> run p s (pre @ ls) = run p s ls"
  by (induction pre) (simp_all add: step_orphan)


text \<open>The list of finished records is only ever extended at its end.\<close>

lemma step_prepend:
  "step p (s\<lparr>questions := qs @ questions s\<rparr>) l =
     (step p s l)\<lparr>questions := qs @ questions (step p s l)\<rparr>"
  by (auto simp: step_def Let_def split: option.splits prod.splits)

lemma run_prepend:
  "run p (s\<lparr>questions := qs @ questions s\<rparr>) ls =
     (run p s ls)\<lparr>questions := qs @ questions (run p s ls)\<rparr>"
proof (induction ls arbitrary: s)
  case Nil
  then show ?case by simp
next
  case (Cons l ls)
  show ?case by (simp add: step_prepend Cons)
qed

lemma finalize_prepend: "finalize (s\<lparr>questions := qs @ questions s\<rparr>) = qs @ finalize s"
  by (simp add: finalize_def split: option.splits)

lemma parse_lines_split:
  assumes "is_header h"
  shows "parse_lines p (pre @ h # rest) = parse_lines p pre @ parse_lines p (h # rest)"
proof -
  let ?s = "run p init pre"
  let ?t = "step p init h"
  have "step p ?s h = ?t\<lparr>questions := finalize ?s @ questions ?t\<rparr>"
    using assms by (simp add: step_header_opened finalize_def init_def)
  then have "run p init (pre @ h # rest) =
      (run p ?t rest)\<lparr>questions := finalize ?s @ questions (run p ?t rest)\<rparr>"
    by (simp add: run_append run_prepend)
  then show ?thesis
    by (simp add: parse_lines_def finalize_prepend)
qed

lemma parse_lines_orphans:
  "list_all (\<lambda>l. \<not> is_header l) pre \<Longrightarrow> parse_lines p (pre @ ls) = parse_lines p ls"
  by (simp add: parse_lines_def run_orphans init_def)

text \<open>What a block of lines without a header does to the open record.\<close>

lemma last_marked_None: "last_marked ls = None \<longleftrightarrow> (\<forall>l\<in>set ls. \<not> choice_marked l)"
  by (induction ls) (auto split: option.splits)

lemma step_block:
  assumes "\<not> is_header l" "current s = Some c" "questions s = []"
  shows "\<exists>c'. current (step p s l) = Some c' \<and> questions (step p s l) = [] \<and>
     map letter (choices c') = map letter (choices c) @ map choice_letter (filter is_choice [l]) \<and>
     (correct_index c', correct_letter c') =
        (if is_choice l \<and> choice_marked l
         then (Some (length (choices c)), Some (choice_letter l))
         else (correct_index c, correct_letter c))"
  using assms letters_set_last[of "choices c"]
  by (auto simp: is_header_def is_choice_def choice_marked_def choice_letter_def step_def Let_def
      split: option.splits prod.splits)


lemma block_result_Nil: "block_result c [] c"
  by (simp add: block_result_def)

lemma block_result_Cons:
  assumes 1: "map letter (choices c1) = map letter (choices c) @ map choice_letter (filter is_choice [l])"
    and 2: "(correct_index c1, correct_letter c1) =
        (if is_choice l \<and> choice_marked l
         then (Some (length (choices c)), Some (choice_letter l))
         else (correct_index c, correct_letter c))"
    and 3: "block_result c1 ls c'"
  shows "block_result c (l # ls) c'"
proof -
  from 1 have "length (map letter (choices c1)) =
      length (map letter (choices c) @ map choice_letter (filter is_choice [l]))" by simp
  then have len: "length (choices c1) = length (choices c) + (if is_choice l then 1 else 0)"
    by simp
  show ?thesis
  proof (cases "is_choice l")
    case False
    with 1 2 3 len show ?thesis by (auto simp add: block_result_def split: option.splits)
  next
    case True
    show ?thesis
    proof (cases "last_marked (filter is_choice ls)")
      case None
      with True 1 2 3 len show ?thesis
        by (cases "choice_marked l") (simp_all add: block_result_def)
    next
      case (Some i)
      with True 1 2 3 len show ?thesis
        by (cases "choice_marked l") (simp_all add: block_result_def)
    qed
  qed
qed

lemma run_block:
  assumes "list_all (\<lambda>l. \<not> is_header l) ls" "current s = Some c" "questions s = []"
  shows "\<exists>c'. current (run p s ls) = Some c' \<and> questions (run p s ls) = [] \<and> block_result c ls c'"
  using assms
proof (induction ls arbitrary: s c)
  case Nil
  then show ?case by (simp add: block_result_Nil)
next
  case (Cons l ls)
  from Cons.prems have nh: "\<not> is_header l" and rest: "list_all (\<lambda>l. \<not> is_header l) ls" by simp_all
  from step_block[OF nh Cons.prems(2,3), of p] obtain c1 where
    c1: "current (step p s l) = Some c1" "questions (step p s l) = []"
      "map letter (choices c1) = map letter (choices c) @ map choice_letter (filter is_choice [l])"
      "(correct_index c1, correct_letter c1) =
        (if is_choice l \<and> choice_marked l
         then (Some (length (choices c)), Some (choice_letter l))
         else (correct_index c, correct_letter c))"
    by blast
  from Cons.IH[OF rest c1(1,2)] obtain c' where
    c': "current (run p (step p s l) ls) = Some c'" "questions (run p (step p s l) ls) = []"
      "block_result c1 ls c'"
    by blast
  from block_result_Cons[OF c1(3,4) c'(3)] c'(1,2) show ?case by simp
qed

lemma parse_lines_block:
  assumes "is_header h" "list_all (\<lambda>l. \<not> is_header l) ls"
  shows "\<exists>q. parse_lines p (h # ls) = [q] \<and> block_result (opened p h) ls q"
proof -
  let ?s = "step p init h"
  have s: "current ?s = Some (opened p h)" "questions ?s = []"
    using assms(1) by (simp_all add: step_header_opened finalize_def init_def)
  from run_block[OF assms(2) s, of p] obtain q where
    "current (run p ?s ls) = Some q" "questions (run p ?s ls) = []" "block_result (opened p h) ls q"
    by blast
  then show ?thesis by (simp add: parse_lines_def finalize_def)
qed

lemma length_parse_lines: "length (parse_lines p ls) = length (filter is_header ls)"
proof -
  have "length (map id_q (parse_lines p ls)) =
      length (map (\<lambda>l. stem p @ [95] @ header_number l) (filter is_header ls))"
    by (simp only: ids_parse_lines)
  then show ?thesis by simp
qed

text \<open>The record of a block, wherever the block stands in the file.\<close>

lemma parse_lines_nth_block:
  assumes "is_header h" "list_all (\<lambda>l. \<not> is_header l) ls" "post = [] \<or> is_header (hd post)"
  shows "length (filter is_header pre) < length (parse_lines p (pre @ h # ls @ post)) \<and>
     block_result (opened p h) ls (parse_lines p (pre @ h # ls @ post) ! length (filter is_header pre))"
proof -
  from parse_lines_block[OF assms(1,2), of p] obtain q where
    q: "parse_lines p (h # ls) = [q]" "block_result (opened p h) ls q" by blast
  have "parse_lines p (h # ls @ post) = q # parse_lines p post"
  proof (cases post)
    case Nil
    with q show ?thesis by (simp add: parse_lines_def finalize_def init_def)
  next
    case (Cons h' post')
    with assms(3) have "is_header h'" by simp
    from parse_lines_split[OF this, of p "h # ls" post'] q Cons show ?thesis by simp
  qed
  with parse_lines_split[OF assms(1), of p pre "ls @ post"]
  have "parse_lines p (pre @ h # ls @ post) = parse_lines p pre @ q # parse_lines p post" by simp
  with q(2) show ?thesis
    by (simp add: nth_append length_parse_lines)
qed




lemma digit_not_linebreak: "is_digit c \<Longrightarrow> \<not> is_linebreak c"
  using digit_bounds[of c] by (auto simp: is_linebreak_def)

lemma run_blanks: "list_all is_blank bs \<Longrightarrow> run p s bs = s"
  by (induction bs) (simp_all add: is_blank_def step_blank)

lemma choice_or_continuation_not_header: "is_choice l \<or> is_continuation l \<Longrightarrow> \<not> is_header l"
  by (auto simp: is_choice_def is_continuation_def is_header_def)

lemma blank_not_header: "is_blank l \<Longrightarrow> \<not> is_header l"
  by (simp add: is_blank_def is_header_def)

lemma parse_lines_header_last:
  assumes "is_header h" "list_all is_blank bs"
  shows "parse_lines p (ls @ h # bs) = parse_lines p ls @ [opened p h]"
proof -
  have "parse_lines p (h # bs) = [opened p h]"
    using assms by (simp add: parse_lines_def run_blanks step_header_opened finalize_def init_def)
  with parse_lines_split[OF assms(1), of p ls bs] show ?thesis by simp
qed

lemma parse_question_file_drop_line:
  assumes "\<forall>c\<in>set l. \<not> is_linebreak c" "\<not> is_header l"
  shows "parse_question_file p (l @ 10 # t) = parse_question_file p t"
proof -
  have "map rstrip_nl (splitlines (l @ 10 # t)) = [l] @ map rstrip_nl (splitlines t)"
    using assms(1) by (simp add: splitlines_line rstrip_nl_id)
  moreover have "list_all (\<lambda>l. \<not> is_header l) [l]" using assms(2) by simp
  ultimately have "parse_lines p (map rstrip_nl (splitlines (l @ 10 # t))) =
      parse_lines p (map rstrip_nl (splitlines t))"
    by (simp only: parse_lines_orphans)
  then show ?thesis by (simp add: parse_question_file_def)
qed

section \<open>Letters and markers\<close>

lemma CHOICE_RE_alpha: "CHOICE_RE s = Some (star, a, g) \<Longrightarrow> is_alpha a"
  by (auto simp: CHOICE_RE_def Let_def split: list.splits if_splits option.splits)

lemma lower_letter_lower: "is_alpha a \<Longrightarrow> lower_letter [lower a]"
  by (auto simp: is_alpha_def lower_letter_def lower_def)

lemma letters_ok_set_last:
  "choices c \<noteq> [] \<Longrightarrow>
   letters_ok (c\<lparr>choices := butlast (choices c) @ [(last (choices c))\<lparr>text_c := t\<rparr>]\<rparr>) = letters_ok c"
  using letters_set_last[of "choices c" t] by (simp add: letters_ok_def del: map_append)

lemma letters_ok_question: "letters_ok (c\<lparr>question := t\<rparr>) = letters_ok c"
  by (simp add: letters_ok_def)

lemma letters_ok_append:
  "letters_ok c \<Longrightarrow> lower_letter a \<Longrightarrow>
     letters_ok (c\<lparr>choices := choices c @ [\<lparr>letter = a, text_c = t\<rparr>]\<rparr>)"
  "letters_ok c \<Longrightarrow> lower_letter a \<Longrightarrow>
     letters_ok (c\<lparr>choices := choices c @ [\<lparr>letter = a, text_c = t\<rparr>],
                   correct_letter := x, correct_index := y\<rparr>)"
  by (simp_all add: letters_ok_def)

lemma letters_ok_new:
  "letters_ok \<lparr>id_q = i, source_file = f, question = q, choices = [],
                correct_letter = None, correct_index = None\<rparr>"
  by (simp add: letters_ok_def)

lemma step_letters_ok: "state_letters_ok s \<Longrightarrow> state_letters_ok (step p s l)"
  by (auto simp: step_def state_letters_ok_def Let_def letters_ok_set_last
      letters_ok_question letters_ok_append letters_ok_new lower_letter_lower CHOICE_RE_alpha
      split: option.splits prod.splits)

lemma run_letters_ok: "state_letters_ok s \<Longrightarrow> state_letters_ok (run p s ls)"
  by (induction ls arbitrary: s) (simp_all add: step_letters_ok)

lemma parse_lines_letters_ok: "list_all letters_ok (parse_lines p ls)"
proof -
  have "state_letters_ok init" by (simp add: state_letters_ok_def init_def)
  then have "state_letters_ok (run p init ls)" by (rule run_letters_ok)
  then show ?thesis
    by (auto simp: parse_lines_def finalize_def state_letters_ok_def split: option.splits)
qed

lemma lower_letter_iff: "lower_letter s \<longleftrightarrow> (\<exists>a. s = [a] \<and> 97 \<le> a \<and> a \<le> 122)"
  by (auto simp: lower_letter_def split: list.splits)

lemma last_marked_Some:
  "last_marked ms = Some i \<Longrightarrow>
     i < length ms \<and> choice_marked (ms ! i) \<and> (\<forall>j. i < j \<and> j < length ms \<longrightarrow> \<not> choice_marked (ms ! j))"
proof (induction ms arbitrary: i)
  case Nil
  then show ?case by simp
next
  case (Cons m ms)
  show ?case
  proof (cases "last_marked ms")
    case None
    with Cons.prems have i: "i = 0" "choice_marked m" by (simp_all split: if_splits)
    from None have "\<forall>l\<in>set ms. \<not> choice_marked l" by (simp add: last_marked_None)
    then have "\<forall>j. 0 < j \<and> j < length (m # ms) \<longrightarrow> \<not> choice_marked ((m # ms) ! j)"
      by (auto simp: nth_Cons split: nat.splits)
    with i show ?thesis by simp
  next
    case (Some k)
    with Cons.prems have i: "i = Suc k" by simp
    from Cons.IH[OF Some] have
      "k < length ms \<and> choice_marked (ms ! k) \<and> (\<forall>j. k < j \<and> j < length ms \<longrightarrow> \<not> choice_marked (ms ! j))" .
    then show ?thesis unfolding i by (auto simp: nth_Cons split: nat.splits)
  qed
qed

section \<open>The well-formed single question\<close>

text \<open>
  Claim C1.  For every text of the shape \<open>1. Q\<close>, \<open>a. x\<close>, \<open>*b. y\<close>, \<open>c. z\<close>, each
  line ended by a line feed, where \<open>Q\<close>, \<open>x\<close>, \<open>y\<close> and \<open>z\<close> are plain texts,
  \<open>parse_question_file\<close> returns exactly one record: its question is \<open>Q\<close>, its choices
  are \<open>(a, x)\<close>, \<open>(b, y)\<close>, \<open>(c, z)\<close> in this order, its correct letter is \<open>b\<close> and
  its correct index is 1.  No warning is printed.
\<close>

theorem single_question_parse:
  assumes "plain Q" "plain x" "plain y" "plain z"
  shows "parse_question_file p
           (str ''1. '' @ Q @ [10] @ str ''a. '' @ x @ [10] @
            str ''*b. '' @ y @ [10] @ str ''c. '' @ z @ [10]) =
         ([\<lparr>id_q = stem p @ str ''_1'', source_file = name p, question = Q,
            choices = [\<lparr>letter = str ''a'', text_c = x\<rparr>,
                       \<lparr>letter = str ''b'', text_c = y\<rparr>,
                       \<lparr>letter = str ''c'', text_c = z\<rparr>],
            correct_letter = Some (str ''b''), correct_index = Some 1\<rparr>], [])"
proof -
  let ?l1 = "[49, 46, 32] @ Q" and ?l2 = "[97, 46, 32] @ x"
  let ?l3 = "[42, 98, 46, 32] @ y" and ?l4 = "[99, 46, 32] @ z"
  have nb: "\<forall>c\<in>set ?l1. \<not> is_linebreak c" "\<forall>c\<in>set ?l2. \<not> is_linebreak c"
    "\<forall>c\<in>set ?l3. \<not> is_linebreak c" "\<forall>c\<in>set ?l4. \<not> is_linebreak c"
  proof -
    have "\<not> is_linebreak 49" "\<not> is_linebreak 46" "\<not> is_linebreak 32" "\<not> is_linebreak 97"
      "\<not> is_linebreak 42" "\<not> is_linebreak 98" "\<not> is_linebreak 99"
      by (simp_all add: is_linebreak_def)
    then show "\<forall>c\<in>set ?l1. \<not> is_linebreak c" "\<forall>c\<in>set ?l2. \<not> is_linebreak c"
      "\<forall>c\<in>set ?l3. \<not> is_linebreak c" "\<forall>c\<in>set ?l4. \<not> is_linebreak c"
      using assms by (simp_all add: plain_no_linebreak ball_Un)
  qed
  have "splitlines (?l1 @ 10 # ?l2 @ 10 # ?l3 @ 10 # ?l4 @ 10 # []) = [?l1, ?l2, ?l3, ?l4]"
    by (simp only: splitlines_line[OF nb(1)] splitlines_line[OF nb(2)]
        splitlines_line[OF nb(3)] splitlines_line[OF nb(4)] splitlines.simps)
  then have lines: "map rstrip_nl (splitlines (str ''1. '' @ Q @ [10] @ str ''a. '' @ x @ [10] @
            str ''*b. '' @ y @ [10] @ str ''c. '' @ z @ [10])) = [?l1, ?l2, ?l3, ?l4]"
    using nb by (simp add: str_def rstrip_nl_id)
  let ?q0 = "\<lparr>id_q = stem p @ [95, 49], source_file = name p,
        question = Q, choices = [], correct_letter = None, correct_index = None\<rparr>"
  let ?ca = "\<lparr>letter = [97], text_c = x\<rparr>" and ?cb = "\<lparr>letter = [98], text_c = y\<rparr>"
  let ?cc = "\<lparr>letter = [99], text_c = z\<rparr>"
  let ?s1 = "\<lparr>questions = [], current = Some ?q0, last_type = Some Question\<rparr>"
  let ?s2 = "\<lparr>questions = [], current = Some (?q0\<lparr>choices := [?ca]\<rparr>),
              last_type = Some Choice\<rparr>"
  let ?s3 = "\<lparr>questions = [], current = Some (?q0\<lparr>choices := [?ca, ?cb],
              correct_letter := Some [98], correct_index := Some 1\<rparr>), last_type = Some Choice\<rparr>"
  let ?s4 = "\<lparr>questions = [], current = Some (?q0\<lparr>choices := [?ca, ?cb, ?cc],
              correct_letter := Some [98], correct_index := Some 1\<rparr>), last_type = Some Choice\<rparr>"
  have s1: "step p init ?l1 = ?s1"
    using header_line[OF assms(1), of "[49]" p init]
    by (simp add: init_def is_digit_def digit_blocks_def)
  have s2: "step p ?s1 ?l2 = ?s2"
    using choice_line[OF assms(2), of 97 ?s1 ?q0 p] by (simp add: is_alpha_def lower_def)
  have s3: "step p ?s2 ?l3 = ?s3"
    using marked_choice_line[OF assms(3), of 98 ?s2 "?q0\<lparr>choices := [?ca]\<rparr>" p]
    by (simp add: is_alpha_def lower_def)
  have s4: "step p ?s3 ?l4 = ?s4"
    using choice_line[OF assms(4), of 99 ?s3 "?q0\<lparr>choices := [?ca, ?cb],
              correct_letter := Some [98], correct_index := Some 1\<rparr>" p]
    by (simp add: is_alpha_def lower_def)
  have "run p init [?l1, ?l2, ?l3, ?l4] = ?s4"
    by (simp only: run.simps s1 s2 s3 s4)
  then show ?thesis
    unfolding parse_question_file_def parse_lines_def lines
    by (simp add: finalize_def str_def)
qed

theorem single_question_parse_witness:
  "plain (str ''Q'') \<and> plain (str ''x'') \<and> plain (str ''y'') \<and> plain (str ''z'') \<and>
   parse_question_file \<lparr>stem = str ''quiz'', name = str ''quiz.txt''\<rparr>
     (str ''1. Q\<newline>a. x\<newline>*b. y\<newline>c. z\<newline>'') =
   ([\<lparr>id_q = str ''quiz_1'', source_file = str ''quiz.txt'', question = str ''Q'',
      choices = [\<lparr>letter = str ''a'', text_c = str ''x''\<rparr>,
                 \<lparr>letter = str ''b'', text_c = str ''y''\<rparr>,
                 \<lparr>letter = str ''c'', text_c = str ''z''\<rparr>],
      correct_letter = Some (str ''b''), correct_index = Some 1\<rparr>], [])"
proof -
  have pl: "plain (str ''Q'')" "plain (str ''x'')" "plain (str ''y'')" "plain (str ''z'')"
    by (simp_all add: plain_def strip_def str_def is_space_def is_linebreak_def)
  show ?thesis
    using pl single_question_parse [OF pl, of "\<lparr>stem = str ''quiz'', name = str ''quiz.txt''\<rparr>"]
    by (simp add: str_def)
qed

section \<open>Consistency of the marking\<close>

text \<open>
  Claim C2.  In every record returned by \<open>parse_question_file\<close> a present
  \<open>correct_index\<close> is a position of \<open>choices\<close> and the choice at that position carries
  \<open>correct_letter\<close>.  Every step of the loop preserves this for the records of its
  state, and a continuation line leaves the letters of the choices and both marking
  fields of the open record as they are.
\<close>

theorem correct_index_consistent:
  "list_all consistent (fst (parse_question_file p t)) \<and>
   (state_consistent s \<longrightarrow> state_consistent (step p s l)) \<and>
   (is_continuation l \<longrightarrow> current s = Some c \<longrightarrow>
      (\<exists>c'. current (step p s l) = Some c' \<and> map letter (choices c') = map letter (choices c)
         \<and> correct_index c' = correct_index c \<and> correct_letter c' = correct_letter c))"
  by (simp add: fst_parse_question_file parse_lines_consistent step_consistent
      step_continuation_structure)

theorem correct_index_consistent_witness:
  "list_all consistent (fst (parse_question_file \<lparr>stem = str ''quiz'', name = str ''quiz.txt''\<rparr>
       (str ''1. Q\<newline>*a. x\<newline>more\<newline>''))) \<and>
   fst (parse_question_file \<lparr>stem = str ''quiz'', name = str ''quiz.txt''\<rparr>
       (str ''1. Q\<newline>*a. x\<newline>more\<newline>'')) \<noteq> [] \<and>
   state_consistent \<lparr>questions = [],
     current = Some \<lparr>id_q = str ''quiz_1'', source_file = str ''quiz.txt'', question = str ''Q'',
       choices = [\<lparr>letter = str ''a'', text_c = str ''x''\<rparr>],
       correct_letter = Some (str ''a''), correct_index = Some 0\<rparr>,
     last_type = Some Choice\<rparr> \<and>
   is_continuation (str ''more'') \<and>
   state_consistent (step \<lparr>stem = str ''quiz'', name = str ''quiz.txt''\<rparr>
     \<lparr>questions = [],
      current = Some \<lparr>id_q = str ''quiz_1'', source_file = str ''quiz.txt'', question = str ''Q'',
        choices = [\<lparr>letter = str ''a'', text_c = str ''x''\<rparr>],
        correct_letter = Some (str ''a''), correct_index = Some 0\<rparr>,
      last_type = Some Choice\<rparr> (str ''more''))"
  using correct_index_consistent [of "\<lparr>stem = str ''quiz'', name = str ''quiz.txt''\<rparr>"
      "str ''1. Q\<newline>*a. x\<newline>more\<newline>''"
      "\<lparr>questions = [],
        current = Some \<lparr>id_q = str ''quiz_1'', source_file = str ''quiz.txt'', question = str ''Q'',
          choices = [\<lparr>letter = str ''a'', text_c = str ''x''\<rparr>],
          correct_letter = Some (str ''a''), correct_index = Some 0\<rparr>,
        last_type = Some Choice\<rparr>" "str ''more''"]
  by (simp add: eval_defs is_continuation_def state_consistent_def consistent_def)

section \<open>Record ids\<close>

text \<open>
  Claim C3, as amended.  The ids of the records of one file are the stem of the file,
  an underscore and the number of each header line, in the order of the header lines.
  So they are pairwise distinct exactly when the header numbers of the file are pairwise
  distinct as digit strings; the parser does not compare them.
\<close>

theorem ids_follow_header_numbers:
  "map id_q (fst (parse_question_file p t)) =
     map (\<lambda>l. stem p @ [95] @ header_number l)
       (filter is_header (map rstrip_nl (splitlines t))) \<and>
   distinct (map id_q (fst (parse_question_file p t))) =
     distinct (map header_number (filter is_header (map rstrip_nl (splitlines t))))"
  by (simp only: fst_parse_question_file ids_parse_lines distinct_map_prefix)

theorem ids_follow_header_numbers_witness:
  "map id_q (fst (parse_question_file \<lparr>stem = str ''quiz'', name = str ''quiz.txt''\<rparr>
      (str ''1. Q\<newline>2. R\<newline>''))) = [str ''quiz_1'', str ''quiz_2''] \<and>
   distinct (map id_q (fst (parse_question_file \<lparr>stem = str ''quiz'', name = str ''quiz.txt''\<rparr>
      (str ''1. Q\<newline>2. R\<newline>''))))"
  using ids_follow_header_numbers [of "\<lparr>stem = str ''quiz'', name = str ''quiz.txt''\<rparr>"
      "str ''1. Q\<newline>2. R\<newline>''"]
  by (simp add: eval_defs kind_defs)

text \<open>
  Two headers with the same number give two records with the same id.
\<close>

theorem ids_not_unique:
  "fst (parse_question_file \<lparr>stem = str ''quiz'', name = str ''quiz.txt''\<rparr>
      (str ''1. Q\<newline>1. R\<newline>'')) =
     [\<lparr>id_q = str ''quiz_1'', source_file = str ''quiz.txt'', question = str ''Q'',
       choices = [], correct_letter = None, correct_index = None\<rparr>,
      \<lparr>id_q = str ''quiz_1'', source_file = str ''quiz.txt'', question = str ''R'',
       choices = [], correct_letter = None, correct_index = None\<rparr>] \<and>
   \<not> distinct (map id_q (fst (parse_question_file \<lparr>stem = str ''quiz'', name = str ''quiz.txt''\<rparr>
      (str ''1. Q\<newline>1. R\<newline>''))))"
  by (simp add: eval_defs)

section \<open>Letters of the choices\<close>

text \<open>
  Claim C4, as amended.  In every record returned by \<open>parse_question_file\<close> the letter
  of each choice is one lower-case character, \<open>a\<close> to \<open>z\<close>.  The letters of a record
  are those of the choice lines of its block, in lower case and in the order of the
  lines, repeated letters included: the parser does not compare them.
\<close>

theorem choice_letters:
  "(\<forall>q\<in>set (fst (parse_question_file p t)). \<forall>c\<in>set (choices q).
      \<exists>a. letter c = [a] \<and> 97 \<le> a \<and> a \<le> 122) \<and>
   (is_header h \<longrightarrow> list_all (\<lambda>l. \<not> is_header l) ls \<longrightarrow> (post = [] \<or> is_header (hd post)) \<longrightarrow>
      length (filter is_header pre) < length (parse_lines p (pre @ h # ls @ post)) \<and>
      map letter (choices (parse_lines p (pre @ h # ls @ post) ! length (filter is_header pre))) =
        map choice_letter (filter is_choice ls))"
proof -
  have "list_all letters_ok (fst (parse_question_file p t))"
    by (simp only: fst_parse_question_file parse_lines_letters_ok)
  then have 1: "\<forall>q\<in>set (fst (parse_question_file p t)). \<forall>c\<in>set (choices q).
      \<exists>a. letter c = [a] \<and> 97 \<le> a \<and> a \<le> 122"
    by (simp add: list_all_iff letters_ok_def lower_letter_iff)
  have 2: "length (filter is_header pre) < length (parse_lines p (pre @ h # ls @ post)) \<and>
      map letter (choices (parse_lines p (pre @ h # ls @ post) ! length (filter is_header pre))) =
        map choice_letter (filter is_choice ls)"
    if "is_header h" "list_all (\<lambda>l. \<not> is_header l) ls" "post = [] \<or> is_header (hd post)"
    using parse_lines_nth_block[OF that, of pre p]
    by (simp add: block_result_def opened_def)
  from 1 2 show ?thesis by blast
qed

theorem choice_letters_witness:
  "fst (parse_question_file \<lparr>stem = str ''quiz'', name = str ''quiz.txt''\<rparr> (str ''1. Q\<newline>A. x\<newline>*b. y\<newline>'')) =
     [\<lparr>id_q = str ''quiz_1'', source_file = str ''quiz.txt'', question = str ''Q'',
       choices = [\<lparr>letter = str ''a'', text_c = str ''x''\<rparr>, \<lparr>letter = str ''b'', text_c = str ''y''\<rparr>],
       correct_letter = Some (str ''b''), correct_index = Some 1\<rparr>] \<and>
   is_header (str ''2. R'') \<and> list_all (\<lambda>l. \<not> is_header l) [str ''C. u'', str ''c. v''] \<and>
   map letter (choices (parse_lines \<lparr>stem = str ''quiz'', name = str ''quiz.txt''\<rparr>
      ([str ''1. Q''] @ str ''2. R'' # [str ''C. u'', str ''c. v''] @ []) ! 1)) =
     [str ''c'', str ''c'']"
  using choice_letters [of "\<lparr>stem = str ''quiz'', name = str ''quiz.txt''\<rparr>" "str ''1. Q\<newline>A. x\<newline>*b. y\<newline>''" "str ''2. R''"
      "[str ''C. u'', str ''c. v'']" "[]" "[str ''1. Q'']"]
  by (simp add: eval_defs kind_defs)

text \<open>Two choice lines with the same letter give two choices with the same letter.\<close>

theorem duplicate_letters:
  "fst (parse_question_file \<lparr>stem = str ''quiz'', name = str ''quiz.txt''\<rparr> (str ''1. Q\<newline>a. x\<newline>a. y\<newline>'')) =
     [\<lparr>id_q = str ''quiz_1'', source_file = str ''quiz.txt'', question = str ''Q'',
       choices = [\<lparr>letter = str ''a'', text_c = str ''x''\<rparr>, \<lparr>letter = str ''a'', text_c = str ''y''\<rparr>],
       correct_letter = None, correct_index = None\<rparr>] \<and>
   \<not> distinct (map letter (choices (hd (fst (parse_question_file \<lparr>stem = str ''quiz'', name = str ''quiz.txt''\<rparr>
       (str ''1. Q\<newline>a. x\<newline>a. y\<newline>''))))))"
  by (simp add: eval_defs)

section \<open>Continuation lines\<close>



section \<open>Several markers in one block\<close>

text \<open>
  Claim C6.  A marked choice line sets \<open>correct_letter\<close> and \<open>correct_index\<close> to its
  own letter and position, whatever they held.  So the record of a block carries the
  marking of the last marked choice line of the block (and none when no choice line is
  marked).  The file \<open>1. Q\<close>, \<open>*a. x\<close>, \<open>*b. y\<close> yields correct letter \<open>b\<close> and correct
  index 1.
\<close>

theorem last_marker_wins:
  "(is_choice l \<longrightarrow> choice_marked l \<longrightarrow> current s = Some c \<longrightarrow>
      (\<exists>c'. current (step p s l) = Some c' \<and> correct_letter c' = Some (choice_letter l) \<and>
         correct_index c' = Some (length (choices c)))) \<and>
   (is_header h \<longrightarrow> list_all (\<lambda>l. \<not> is_header l) ls \<longrightarrow> (post = [] \<or> is_header (hd post)) \<longrightarrow>
      correct_index (parse_lines p (pre @ h # ls @ post) ! length (filter is_header pre)) =
        last_marked (filter is_choice ls) \<and>
      correct_letter (parse_lines p (pre @ h # ls @ post) ! length (filter is_header pre)) =
        map_option (\<lambda>i. choice_letter (filter is_choice ls ! i)) (last_marked (filter is_choice ls))) \<and>
   (last_marked ms = Some i \<longrightarrow>
      i < length ms \<and> choice_marked (ms ! i) \<and>
      (\<forall>j. i < j \<and> j < length ms \<longrightarrow> \<not> choice_marked (ms ! j))) \<and>
   fst (parse_question_file p (str ''1. Q\<newline>*a. x\<newline>*b. y\<newline>'')) =
     [\<lparr>id_q = stem p @ str ''_1'', source_file = name p, question = str ''Q'',
       choices = [\<lparr>letter = str ''a'', text_c = str ''x''\<rparr>, \<lparr>letter = str ''b'', text_c = str ''y''\<rparr>],
       correct_letter = Some (str ''b''), correct_index = Some 1\<rparr>]"
proof -
  have 1: "\<exists>c'. current (step p s l) = Some c' \<and> correct_letter c' = Some (choice_letter l) \<and>
         correct_index c' = Some (length (choices c))"
    if "is_choice l" "choice_marked l" "current s = Some c"
    using that
    by (auto simp: is_choice_def choice_marked_def choice_letter_def step_def Let_def
        split: option.splits prod.splits)
  have 2: "correct_index (parse_lines p (pre @ h # ls @ post) ! length (filter is_header pre)) =
        last_marked (filter is_choice ls) \<and>
      correct_letter (parse_lines p (pre @ h # ls @ post) ! length (filter is_header pre)) =
        map_option (\<lambda>i. choice_letter (filter is_choice ls ! i)) (last_marked (filter is_choice ls))"
    if "is_header h" "list_all (\<lambda>l. \<not> is_header l) ls" "post = [] \<or> is_header (hd post)"
    using parse_lines_nth_block[OF that, of pre p]
    by (auto simp add: block_result_def opened_def split: option.splits)
  have 3: "last_marked ms = Some i \<longrightarrow>
      i < length ms \<and> choice_marked (ms ! i) \<and>
      (\<forall>j. i < j \<and> j < length ms \<longrightarrow> \<not> choice_marked (ms ! j))"
    using last_marked_Some[of ms i] by blast
  have 4: "fst (parse_question_file p (str ''1. Q\<newline>*a. x\<newline>*b. y\<newline>'')) =
     [\<lparr>id_q = stem p @ str ''_1'', source_file = name p, question = str ''Q'',
       choices = [\<lparr>letter = str ''a'', text_c = str ''x''\<rparr>, \<lparr>letter = str ''b'', text_c = str ''y''\<rparr>],
       correct_letter = Some (str ''b''), correct_index = Some 1\<rparr>]"
    by (simp add: eval_defs)
  from 1 2 3 4 show ?thesis by blast
qed

theorem last_marker_wins_witness:
  "is_choice (str ''*b. y'') \<and> choice_marked (str ''*b. y'') \<and>
   current (step \<lparr>stem = str ''quiz'', name = str ''quiz.txt''\<rparr>
     \<lparr>questions = [],
      current = Some \<lparr>id_q = str ''quiz_1'', source_file = str ''quiz.txt'', question = str ''Q'',
        choices = [\<lparr>letter = str ''a'', text_c = str ''x''\<rparr>],
        correct_letter = Some (str ''a''), correct_index = Some 0\<rparr>,
      last_type = Some Choice\<rparr> (str ''*b. y'')) =
     Some \<lparr>id_q = str ''quiz_1'', source_file = str ''quiz.txt'', question = str ''Q'',
        choices = [\<lparr>letter = str ''a'', text_c = str ''x''\<rparr>, \<lparr>letter = str ''b'', text_c = str ''y''\<rparr>],
        correct_letter = Some (str ''b''), correct_index = Some 1\<rparr> \<and>
   is_header (str ''1. Q'') \<and> list_all (\<lambda>l. \<not> is_header l) [str ''*a. x'', str ''*b. y''] \<and>
   correct_index (parse_lines \<lparr>stem = str ''quiz'', name = str ''quiz.txt''\<rparr> ([] @ str ''1. Q'' # [str ''*a. x'', str ''*b. y''] @ []) ! 0) = Some 1 \<and>
   last_marked [str ''*a. x'', str ''*b. y''] = Some 1 \<and>
   fst (parse_question_file \<lparr>stem = str ''quiz'', name = str ''quiz.txt''\<rparr> (str ''1. Q\<newline>*a. x\<newline>*b. y\<newline>'')) =
     [\<lparr>id_q = str ''quiz_1'', source_file = str ''quiz.txt'', question = str ''Q'',
       choices = [\<lparr>letter = str ''a'', text_c = str ''x''\<rparr>, \<lparr>letter = str ''b'', text_c = str ''y''\<rparr>],
       correct_letter = Some (str ''b''), correct_index = Some 1\<rparr>]"
  using last_marker_wins [of "str ''*b. y''"
      "\<lparr>questions = [],
        current = Some \<lparr>id_q = str ''quiz_1'', source_file = str ''quiz.txt'', question = str ''Q'',
          choices = [\<lparr>letter = str ''a'', text_c = str ''x''\<rparr>],
          correct_letter = Some (str ''a''), correct_index = Some 0\<rparr>,
        last_type = Some Choice\<rparr>"
      "\<lparr>id_q = str ''quiz_1'', source_file = str ''quiz.txt'', question = str ''Q'',
          choices = [\<lparr>letter = str ''a'', text_c = str ''x''\<rparr>],
          correct_letter = Some (str ''a''), correct_index = Some 0\<rparr>"
      "\<lparr>stem = str ''quiz'', name = str ''quiz.txt''\<rparr>" "str ''1. Q''" "[str ''*a. x'', str ''*b. y'']" "[]" "[]"
      "[str ''*a. x'', str ''*b. y'']" 1]
  by (simp add: eval_defs kind_defs)

section \<open>The record open at the end of the input\<close>

text \<open>
  Claim C7.  The record that is open when the lines are exhausted is appended to the
  result, whatever it holds.  The file yields one record for each header line, so none
  is lost.  When the last line that is not blank is a header, the last record is the
  one this header opens: it has no choices and no marking.  A file that is one header
  line, number \<open>ds\<close> and plain text \<open>Q\<close>, yields exactly one record, with no
  choices.  The functions are total: no input makes them fail.
\<close>

theorem end_of_input_finalizes:
  "(current (run p init ls) = Some c \<longrightarrow> parse_lines p ls = questions (run p init ls) @ [c]) \<and>
   length (fst (parse_question_file p t)) =
     length (filter is_header (map rstrip_nl (splitlines t))) \<and>
   (is_header h \<longrightarrow> list_all is_blank bs \<longrightarrow>
      parse_lines p (ls @ h # bs) = parse_lines p ls @ [opened p h] \<and>
      choices (opened p h) = [] \<and> correct_letter (opened p h) = None \<and>
      correct_index (opened p h) = None) \<and>
   (plain Q \<longrightarrow> ds \<noteq> [] \<longrightarrow> list_all is_digit ds \<longrightarrow>
      fst (parse_question_file p (ds @ 46 # 32 # Q)) =
        [\<lparr>id_q = stem p @ [95] @ ds, source_file = name p, question = Q, choices = [],
          correct_letter = None, correct_index = None\<rparr>])"
proof -
  have 1: "current (run p init ls) = Some c \<longrightarrow> parse_lines p ls = questions (run p init ls) @ [c]"
    by (simp add: parse_lines_def finalize_def)
  have 2: "length (fst (parse_question_file p t)) =
     length (filter is_header (map rstrip_nl (splitlines t)))"
    by (simp only: fst_parse_question_file length_parse_lines)
  have 3: "is_header h \<longrightarrow> list_all is_blank bs \<longrightarrow>
      parse_lines p (ls @ h # bs) = parse_lines p ls @ [opened p h] \<and>
      choices (opened p h) = [] \<and> correct_letter (opened p h) = None \<and>
      correct_index (opened p h) = None"
    by (simp add: parse_lines_header_last) (simp add: opened_def)
  have 4: "fst (parse_question_file p (ds @ 46 # 32 # Q)) =
        [\<lparr>id_q = stem p @ [95] @ ds, source_file = name p, question = Q, choices = [],
          correct_letter = None, correct_index = None\<rparr>]"
    if "plain Q" "ds \<noteq> []" "list_all is_digit ds"
  proof -
    have nl: "\<forall>c\<in>set (ds @ 46 # 32 # Q). \<not> is_linebreak c"
    proof -
      have "\<not> is_linebreak 46" "\<not> is_linebreak 32" by (simp_all add: is_linebreak_def)
      moreover have "\<forall>c\<in>set ds. \<not> is_linebreak c"
        using that(3) digit_not_linebreak by (auto simp: list_all_iff)
      ultimately show ?thesis using plain_no_linebreak[OF that(1)] by (simp add: ball_Un)
    qed
    have "map rstrip_nl (splitlines (ds @ 46 # 32 # Q)) = [ds @ 46 # 32 # Q]"
      using nl that(2) by (simp add: splitlines_last_line rstrip_nl_id del: set_append)
    then show ?thesis
      using header_line[OF that, of p init]
      by (simp add: fst_parse_question_file parse_lines_def finalize_def init_def)
  qed
  from 1 2 3 4 show ?thesis by blast
qed

theorem end_of_input_finalizes_witness:
  "current (run \<lparr>stem = str ''quiz'', name = str ''quiz.txt''\<rparr> init [str ''1. Q'']) =
     Some \<lparr>id_q = str ''quiz_1'', source_file = str ''quiz.txt'', question = str ''Q'',
       choices = [], correct_letter = None, correct_index = None\<rparr> \<and>
   parse_lines \<lparr>stem = str ''quiz'', name = str ''quiz.txt''\<rparr> [str ''1. Q''] =
     [\<lparr>id_q = str ''quiz_1'', source_file = str ''quiz.txt'', question = str ''Q'',
       choices = [], correct_letter = None, correct_index = None\<rparr>] \<and>
   length (fst (parse_question_file \<lparr>stem = str ''quiz'', name = str ''quiz.txt''\<rparr>
     (str ''1. Q\<newline>a. x\<newline>2. R''))) = 2 \<and>
   is_header (str ''2. R'') \<and> list_all is_blank [str '' ''] \<and>
   parse_lines \<lparr>stem = str ''quiz'', name = str ''quiz.txt''\<rparr>
     ([str ''1. Q''] @ str ''2. R'' # [str '' '']) =
     [\<lparr>id_q = str ''quiz_1'', source_file = str ''quiz.txt'', question = str ''Q'',
       choices = [], correct_letter = None, correct_index = None\<rparr>,
      \<lparr>id_q = str ''quiz_2'', source_file = str ''quiz.txt'', question = str ''R'',
       choices = [], correct_letter = None, correct_index = None\<rparr>] \<and>
   plain (str ''Q'') \<and> str ''7'' \<noteq> [] \<and> list_all is_digit (str ''7'') \<and>
   fst (parse_question_file \<lparr>stem = str ''quiz'', name = str ''quiz.txt''\<rparr> (str ''7. Q'')) =
     [\<lparr>id_q = str ''quiz_7'', source_file = str ''quiz.txt'', question = str ''Q'',
       choices = [], correct_letter = None, correct_index = None\<rparr>]"
  using end_of_input_finalizes [of "\<lparr>stem = str ''quiz'', name = str ''quiz.txt''\<rparr>"
      "[str ''1. Q'']"
      "\<lparr>id_q = str ''quiz_1'', source_file = str ''quiz.txt'', question = str ''Q'',
        choices = [], correct_letter = None, correct_index = None\<rparr>"
      "str ''1. Q\<newline>a. x\<newline>2. R''" "str ''2. R''" "[str '' '']" "str ''Q''" "str ''7''"]
  by (simp add: eval_defs kind_defs plain_def)

section \<open>Lines before the first header\<close>

text \<open>
  Claim C8.  A choice line or a continuation line met while no record is open leaves
  the state of the loop as it is.  So lines of these kinds before the first header
  change neither the records returned nor, at the level of the file, the lines
  printed: the file parses as it does without them.  Nothing is raised, the functions
  being total.
\<close>

theorem orphan_lines_dropped:
  "(is_choice l \<or> is_continuation l \<longrightarrow> current s = None \<longrightarrow> step p s l = s) \<and>
   (list_all (\<lambda>l. is_choice l \<or> is_continuation l) pre \<longrightarrow>
      parse_lines p (pre @ ls) = parse_lines p ls) \<and>
   (is_choice l \<or> is_continuation l \<longrightarrow> (\<forall>c\<in>set l. \<not> is_linebreak c) \<longrightarrow>
      parse_question_file p (l @ 10 # t) = parse_question_file p t)"
proof -
  have "list_all (\<lambda>l. is_choice l \<or> is_continuation l) pre \<Longrightarrow>
      list_all (\<lambda>l. \<not> is_header l) pre"
    by (simp add: list_all_iff choice_or_continuation_not_header)
  then show ?thesis
    using choice_or_continuation_not_header[of l]
    by (auto simp: step_orphan parse_lines_orphans parse_question_file_drop_line)
qed

theorem orphan_lines_dropped_witness:
  "is_choice (str ''*a. x'') \<and> is_continuation (str ''stray'') \<and>
   step \<lparr>stem = str ''quiz'', name = str ''quiz.txt''\<rparr> init (str ''*a. x'') = init \<and>
   parse_lines \<lparr>stem = str ''quiz'', name = str ''quiz.txt''\<rparr>
     ([str ''*a. x'', str ''stray''] @ [str ''1. Q'']) =
   parse_lines \<lparr>stem = str ''quiz'', name = str ''quiz.txt''\<rparr> [str ''1. Q''] \<and>
   parse_question_file \<lparr>stem = str ''quiz'', name = str ''quiz.txt''\<rparr>
     (str ''*a. x\<newline>1. Q\<newline>'') =
   ([\<lparr>id_q = str ''quiz_1'', source_file = str ''quiz.txt'', question = str ''Q'',
      choices = [], correct_letter = None, correct_index = None\<rparr>],
    [str ''WARNING: No correct answer marked in quiz.txt for question id quiz_1''])"
  using orphan_lines_dropped [of "str ''*a. x''" init
      "\<lparr>stem = str ''quiz'', name = str ''quiz.txt''\<rparr>" "[str ''*a. x'', str ''stray'']"
      "[str ''1. Q'']" "str ''1. Q\<newline>''"]
  by (simp add: eval_defs kind_defs)

section \<open>The guard on the list of choices\<close>

text \<open>
  Claim C10.  In every state the loop reaches, \<open>last_type = "choice"\<close> implies that
  the current record exists and has at least one choice.  So no line ever meets the
  case that the test \<open>current["choices"]\<close> alone decides, and a continuation line that
  arrives after a choice line is appended to the text of the last choice, which exists.
\<close>

theorem last_type_choice_invariant:
  "choice_inv (run p init ls) \<and> \<not> drop_case (run p init ls) l \<and>
   (is_continuation l \<longrightarrow> last_type (run p init ls) = Some Choice \<longrightarrow>
      (\<exists>c. current (run p init ls) = Some c \<and> choices c \<noteq> [] \<and>
         step p (run p init ls) l =
           (run p init ls)\<lparr>current := Some (c\<lparr>choices := butlast (choices c) @
             [(last (choices c))\<lparr>text_c := text_c (last (choices c)) @ [32] @ strip l\<rparr>]\<rparr>)\<rparr>))"
proof -
  have inv: "choice_inv (run p init ls)"
    by (intro run_choice_inv init_choice_inv)
  have "is_continuation l \<longrightarrow> last_type (run p init ls) = Some Choice \<longrightarrow>
      (\<exists>c. current (run p init ls) = Some c \<and> choices c \<noteq> [] \<and>
         step p (run p init ls) l =
           (run p init ls)\<lparr>current := Some (c\<lparr>choices := butlast (choices c) @
             [(last (choices c))\<lparr>text_c := text_c (last (choices c)) @ [32] @ strip l\<rparr>]\<rparr>)\<rparr>)"
    using step_continuation_choice[OF _ _ inv] by blast
  with inv show ?thesis
    using choice_inv_no_drop[OF inv] by blast
qed

theorem last_type_choice_invariant_witness:
  "last_type (run \<lparr>stem = str ''quiz'', name = str ''quiz.txt''\<rparr> init [str ''1. Q'', str ''a. x''])
     = Some Choice \<and>
   is_continuation (str ''more'') \<and>
   choice_inv (run \<lparr>stem = str ''quiz'', name = str ''quiz.txt''\<rparr> init [str ''1. Q'', str ''a. x'']) \<and>
   \<not> drop_case (run \<lparr>stem = str ''quiz'', name = str ''quiz.txt''\<rparr> init [str ''1. Q'', str ''a. x''])
       (str ''more'') \<and>
   map text_c (choices (the (current
     (step \<lparr>stem = str ''quiz'', name = str ''quiz.txt''\<rparr>
        (run \<lparr>stem = str ''quiz'', name = str ''quiz.txt''\<rparr> init [str ''1. Q'', str ''a. x''])
        (str ''more''))))) = [str ''x more'']"
  using last_type_choice_invariant [of "\<lparr>stem = str ''quiz'', name = str ''quiz.txt''\<rparr>"
      "[str ''1. Q'', str ''a. x'']" "str ''more''"]
  by (simp add: eval_defs is_continuation_def choice_inv_def drop_case_def)

end
